theory Spec2Isabelle
  imports Main "HOL-Library.Word"
begin

section \<open>JavaScript strings\<close>

text \<open>
  A JavaScript string is a sequence of UTF-16 code units; \<open>length\<close>, indexing and
  \<open>slice\<close> count code units. The ellipsis of \<open>normalizeValue\<close> is the single code
  unit U+2026.
\<close>

type_synonym jschar = "16 word"
type_synonym jsstring = "jschar list"

definition js :: "string \<Rightarrow> jsstring" where
  "js s = map of_char s"

abbreviation QUOTE :: jschar where "QUOTE \<equiv> 0x22"
abbreviation BACKSLASH :: jschar where "BACKSLASH \<equiv> 0x5C"
abbreviation SLASH :: jschar where "SLASH \<equiv> 0x2F"
abbreviation STAR :: jschar where "STAR \<equiv> 0x2A"
abbreviation NEWLINE :: jschar where "NEWLINE \<equiv> 0x0A"
abbreviation SPACE :: jschar where "SPACE \<equiv> 0x20"
abbreviation LPAREN :: jschar where "LPAREN \<equiv> 0x28"
abbreviation RPAREN :: jschar where "RPAREN \<equiv> 0x29"
abbreviation LBRACE :: jschar where "LBRACE \<equiv> 0x7B"
abbreviation RBRACE :: jschar where "RBRACE \<equiv> 0x7D"
abbreviation COMMA :: jschar where "COMMA \<equiv> 0x2C"
abbreviation DOT :: jschar where "DOT \<equiv> 0x2E"
abbreviation COLON :: jschar where "COLON \<equiv> 0x3A"
abbreviation ELLIPSIS :: jschar where "ELLIPSIS \<equiv> 0x2026"

text \<open>\<open>text[i]\<close>: \<open>None\<close> is JavaScript's \<open>undefined\<close> of an index out of range.\<close>

definition at :: "jsstring \<Rightarrow> nat \<Rightarrow> jschar option" where
  "at text i = (if i < length text then Some (text ! i) else None)"

text \<open>\<open>text[i - 1]\<close>, where \<open>i = 0\<close> reads index \<open>-1\<close>, which is \<open>undefined\<close>.\<close>

definition atPrev :: "jsstring \<Rightarrow> nat \<Rightarrow> jschar option" where
  "atPrev text i = (if i = 0 then None else at text (i - 1))"

text \<open>\<open>text.slice(a, b)\<close> and \<open>text.slice(a)\<close> for indices that are not negative.\<close>

definition slice :: "jsstring \<Rightarrow> nat \<Rightarrow> nat \<Rightarrow> jsstring" where
  "slice text a b = take (b - a) (drop a text)"

definition sliceFrom :: "jsstring \<Rightarrow> nat \<Rightarrow> jsstring" where
  "sliceFrom text a = drop a text"

text \<open>
  The class \<open>\s\<close> of a regular expression, which is also what \<open>trim\<close> removes:
  WhiteSpace and LineTerminator of ECMAScript.
\<close>

definition isSpace :: "jschar \<Rightarrow> bool" where
  "isSpace c = ((0x09 \<le> c \<and> c \<le> 0x0D) \<or> c = 0x20 \<or> c = 0xA0 \<or> c = 0x1680
     \<or> (0x2000 \<le> c \<and> c \<le> 0x200A) \<or> c = 0x2028 \<or> c = 0x2029 \<or> c = 0x202F
     \<or> c = 0x205F \<or> c = 0x3000 \<or> c = 0xFEFF)"

text \<open>The class \<open>[A-Za-z0-9_]\<close>, which is \<open>\w\<close>.\<close>

definition isWordChar :: "jschar \<Rightarrow> bool" where
  "isWordChar c = ((0x41 \<le> c \<and> c \<le> 0x5A) \<or> (0x61 \<le> c \<and> c \<le> 0x7A)
     \<or> (0x30 \<le> c \<and> c \<le> 0x39) \<or> c = 0x5F)"

definition trimStart :: "jsstring \<Rightarrow> jsstring" where
  "trimStart s = dropWhile isSpace s"

definition trim :: "jsstring \<Rightarrow> jsstring" where
  "trim s = rev (dropWhile isSpace (rev (dropWhile isSpace s)))"

text \<open>\<open>while (i < n && /\s/.test(text[i])) i++\<close>, and the same loop for other classes.\<close>

function skipWhile :: "(jschar \<Rightarrow> bool) \<Rightarrow> jsstring \<Rightarrow> nat \<Rightarrow> nat" where
  "skipWhile P text i =
     (if i < length text \<and> P (text ! i) then skipWhile P text (i + 1) else i)"
  by pat_completeness auto
termination
  by (relation "measure (\<lambda>(P, text, i). length text - i)") auto

declare skipWhile.simps [simp del]

section \<open>Lexical scanner\<close>

function readString_loop :: "jsstring \<Rightarrow> nat \<Rightarrow> nat" where
  "readString_loop text i =
     (if i < length text then
        (if text ! i = BACKSLASH then readString_loop text (i + 2)
         else if text ! i = QUOTE then i
         else readString_loop text (i + 1))
      else length text - 1)"
  by pat_completeness auto
termination
  by (relation "measure (\<lambda>(text, i). length text - i)") auto

declare readString_loop.simps [simp del]

text \<open>\<open>readString\<close> is only called at a quote, so the text is not empty and \<open>n - 1\<close> is
  not negative.\<close>

definition readString :: "jsstring \<Rightarrow> nat \<Rightarrow> nat" where
  "readString text start = readString_loop text (start + 1)"

text \<open>The loop condition \<open>i < n - 2\<close> is written \<open>i + 2 < n\<close>, since \<open>n - 2\<close> may be
  negative in the source.\<close>

function readTripleQuoted_loop :: "jsstring \<Rightarrow> nat \<Rightarrow> nat" where
  "readTripleQuoted_loop text i =
     (if i + 2 < length text then
        (if text ! i = QUOTE \<and> text ! (i + 1) = QUOTE \<and> text ! (i + 2) = QUOTE then i + 2
         else readTripleQuoted_loop text (i + 1))
      else length text - 1)"
  by pat_completeness auto
termination
  by (relation "measure (\<lambda>(text, i). length text - i)") auto

declare readTripleQuoted_loop.simps [simp del]

definition readTripleQuoted :: "jsstring \<Rightarrow> nat \<Rightarrow> nat" where
  "readTripleQuoted text start = readTripleQuoted_loop text (start + 3)"

definition readSwiftString :: "jsstring \<Rightarrow> nat \<Rightarrow> nat" where
  "readSwiftString text start =
     (if at text start \<noteq> Some QUOTE then start
      else if at text (start + 1) = Some QUOTE \<and> at text (start + 2) = Some QUOTE
        then readTripleQuoted text start
      else readString text start)"

text \<open>The two comment loops of \<open>readBalanced\<close>.\<close>

definition skipLineComment :: "jsstring \<Rightarrow> nat \<Rightarrow> nat" where
  "skipLineComment text i = skipWhile (\<lambda>c. c \<noteq> NEWLINE) text i"

function skipBlockComment :: "jsstring \<Rightarrow> nat \<Rightarrow> nat" where
  "skipBlockComment text i =
     (if i < length text \<and> \<not> (text ! i = STAR \<and> at text (i + 1) = Some SLASH)
      then skipBlockComment text (i + 1) else i)"
  by pat_completeness auto
termination
  by (relation "measure (\<lambda>(text, i). length text - i)") auto

declare skipBlockComment.simps [simp del]

lemma skipWhile_ge: "i \<le> skipWhile P tx i"
proof (induction P tx i rule: skipWhile.induct)
  case (1 P tx i)
  show ?case
  proof (cases "i < length tx \<and> P (tx ! i)")
    case True
    with 1 have "i + 1 \<le> skipWhile P tx (i + 1)" by simp
    with True show ?thesis by (subst skipWhile.simps) simp
  next
    case False
    then show ?thesis by (subst skipWhile.simps) auto
  qed
qed

lemma skipBlockComment_ge: "i \<le> skipBlockComment tx i"
proof (induction tx i rule: skipBlockComment.induct)
  case (1 tx i)
  show ?case
  proof (cases "i < length tx \<and> \<not> (tx ! i = STAR \<and> at tx (i + 1) = Some SLASH)")
    case True
    with 1 have "i + 1 \<le> skipBlockComment tx (i + 1)" by simp
    with True show ?thesis by (subst skipBlockComment.simps) simp
  next
    case False
    then show ?thesis by (subst skipBlockComment.simps) auto
  qed
qed

lemma readString_loop_ge: "i < length tx \<Longrightarrow> i \<le> readString_loop tx i"
proof (induction tx i rule: readString_loop.induct)
  case (1 tx i)
  show ?case
  proof (cases "tx ! i = BACKSLASH")
    case True
    show ?thesis
    proof (cases "i + 2 < length tx")
      case True
      with 1 \<open>tx ! i = BACKSLASH\<close> have "i + 2 \<le> readString_loop tx (i + 2)" by simp
      with 1 \<open>tx ! i = BACKSLASH\<close> show ?thesis by (subst readString_loop.simps) simp
    next
      case False
      then have "readString_loop tx (i + 2) = length tx - 1"
        by (subst readString_loop.simps) simp
      with 1 \<open>tx ! i = BACKSLASH\<close> show ?thesis by (subst readString_loop.simps) simp
    qed
  next
    case False
    show ?thesis
    proof (cases "tx ! i = QUOTE")
      case True
      with 1 False show ?thesis by (subst readString_loop.simps) simp
    next
      case nq: False
      show ?thesis
      proof (cases "i + 1 < length tx")
        case True
        with 1 False nq have "i + 1 \<le> readString_loop tx (i + 1)" by simp
        with 1 False nq show ?thesis by (subst readString_loop.simps) simp
      next
        case False
        then have "readString_loop tx (i + 1) = length tx - 1"
          by (subst readString_loop.simps) simp
        with 1 \<open>tx ! i \<noteq> BACKSLASH\<close> nq show ?thesis
          by (subst readString_loop.simps) simp
      qed
    qed
  qed
qed


lemma readTripleQuoted_loop_ge:
  "i \<le> length tx \<Longrightarrow> 0 < i \<Longrightarrow> i - 1 \<le> readTripleQuoted_loop tx i"
proof (induction tx i rule: readTripleQuoted_loop.induct)
  case (1 tx i)
  show ?case
  proof (cases "i + 2 < length tx")
    case True
    show ?thesis
    proof (cases "tx ! i = QUOTE \<and> tx ! (i + 1) = QUOTE \<and> tx ! (i + 2) = QUOTE")
      case True
      with \<open>i + 2 < length tx\<close> show ?thesis by (subst readTripleQuoted_loop.simps) simp
    next
      case False
      with 1 True have "i \<le> readTripleQuoted_loop tx (i + 1)" by simp
      with True False show ?thesis by (subst readTripleQuoted_loop.simps) auto
    qed
  next
    case False
    with 1 show ?thesis by (subst readTripleQuoted_loop.simps) simp
  qed
qed


lemma readSwiftString_ge: "start \<le> readSwiftString tx start"
proof (cases "at tx start = Some QUOTE")
  case False
  then show ?thesis by (simp add: readSwiftString_def)
next
  case q: True
  then have lt: "start < length tx" by (auto simp: at_def split: if_splits)
  show ?thesis
  proof (cases "at tx (start + 1) = Some QUOTE \<and> at tx (start + 2) = Some QUOTE")
    case True
    then have "start + 3 \<le> length tx" by (auto simp: at_def split: if_splits)
    then have "start + 3 - 1 \<le> readTripleQuoted_loop tx (start + 3)"
      by (intro readTripleQuoted_loop_ge) auto
    with q True show ?thesis by (simp add: readSwiftString_def readTripleQuoted_def)
  next
    case False
    have "start \<le> readString_loop tx (start + 1)"
    proof (cases "start + 1 < length tx")
      case True
      from readString_loop_ge[OF this] show ?thesis by simp
    next
      case False
      then have "readString_loop tx (start + 1) = length tx - 1"
        by (subst readString_loop.simps) simp
      with lt show ?thesis by simp
    qed
    with q False show ?thesis by (auto simp: readSwiftString_def readString_def)
  qed
qed



lemma readSwiftString_measure:
  "i < length tx \<Longrightarrow> length tx - Suc (readSwiftString tx i) < length tx - i"
  using readSwiftString_ge[of i tx] by arith

lemma skipLineComment_measure:
  "i < length tx \<Longrightarrow> length tx - Suc (skipLineComment tx i) < length tx - i"
  using skipWhile_ge[of i "\<lambda>c. c \<noteq> NEWLINE" tx] by (simp add: skipLineComment_def)

lemma skipBlockComment_measure:
  "i < length tx \<Longrightarrow> length tx - Suc (Suc (skipBlockComment tx (Suc (Suc i)))) < length tx - i"
  using skipBlockComment_ge[of "Suc (Suc i)" tx] by arith

text \<open>
  \<open>readBalanced\<close>: the \<open>for\<close> loop, with the increment of \<open>continue\<close> and of the loop
  header written into the next index. The result \<open>{inner, end}\<close> is a pair, \<open>null\<close>
  is \<open>None\<close>.
\<close>

function readBalanced_loop ::
  "jsstring \<Rightarrow> nat \<Rightarrow> jschar \<Rightarrow> jschar \<Rightarrow> int \<Rightarrow> nat \<Rightarrow> (jsstring \<times> nat) option" where
  "readBalanced_loop text openPos openChar closeChar depth i =
     (if i < length text then
        (if text ! i = QUOTE then
           readBalanced_loop text openPos openChar closeChar depth (readSwiftString text i + 1)
         else if text ! i = SLASH \<and> at text (i + 1) = Some SLASH then
           readBalanced_loop text openPos openChar closeChar depth (skipLineComment text i + 1)
         else if text ! i = SLASH \<and> at text (i + 1) = Some STAR then
           readBalanced_loop text openPos openChar closeChar depth
             (skipBlockComment text (i + 2) + 1 + 1)
         else if text ! i = openChar then
           readBalanced_loop text openPos openChar closeChar (depth + 1) (i + 1)
         else if text ! i = closeChar then
           (if depth - 1 = 0 then Some (slice text (openPos + 1) i, i)
            else readBalanced_loop text openPos openChar closeChar (depth - 1) (i + 1))
         else readBalanced_loop text openPos openChar closeChar depth (i + 1))
      else None)"
  by pat_completeness auto
termination
  by (relation "measure (\<lambda>(text, openPos, openChar, closeChar, depth, i). length text - i)")
    (auto simp: readSwiftString_measure skipLineComment_measure skipBlockComment_measure)

declare readBalanced_loop.simps [simp del]

definition readBalanced :: "jsstring \<Rightarrow> nat \<Rightarrow> jschar \<Rightarrow> jschar \<Rightarrow> (jsstring \<times> nat) option" where
  "readBalanced text openPos openChar closeChar =
     (if at text openPos \<noteq> Some openChar then None
      else readBalanced_loop text openPos openChar closeChar 0 openPos)"

section \<open>Argument lists and props\<close>

text \<open>
  \<open>splitArgs\<close>: the loop returns \<open>parts\<close> and \<open>cur\<close> as they are when the text is
  exhausted.
\<close>

function splitArgs_loop ::
  "jsstring \<Rightarrow> nat \<Rightarrow> int \<Rightarrow> jsstring \<Rightarrow> jsstring list \<Rightarrow> jsstring list \<times> jsstring" where
  "splitArgs_loop s i depth cur parts =
     (if i < length s then
        (if s ! i = QUOTE then
           splitArgs_loop s (readSwiftString s i + 1) depth
             (cur @ slice s i (readSwiftString s i + 1)) parts
         else
           (if s ! i = COMMA \<and>
               (if s ! i = LPAREN then depth + 1 else if s ! i = RPAREN then depth - 1 else depth) = 0
            then splitArgs_loop s (i + 1)
                   (if s ! i = LPAREN then depth + 1 else if s ! i = RPAREN then depth - 1 else depth)
                   [] (parts @ [trim cur])
            else splitArgs_loop s (i + 1)
                   (if s ! i = LPAREN then depth + 1 else if s ! i = RPAREN then depth - 1 else depth)
                   (cur @ [s ! i]) parts))
      else (parts, cur))"
  by pat_completeness auto
termination
  by (relation "measure (\<lambda>(s, i, depth, cur, parts). length s - i)")
    (auto simp: readSwiftString_measure)

declare splitArgs_loop.simps [simp del]

definition splitArgs :: "jsstring \<Rightarrow> jsstring list" where
  "splitArgs s =
     (case splitArgs_loop s 0 0 [] [] of
        (parts, cur) \<Rightarrow> if trim cur \<noteq> [] then parts @ [trim cur] else parts)"

lemma length_dropWhile_less:
  "length (dropWhile P cs) < Suc (length cs)" "length (dropWhile P cs) < Suc (Suc (length cs))"
  using length_dropWhile_le[of P cs] by arith+

text \<open>\<open>replace(/[\n\r\t]+/g, ' ')\<close>: every maximal run of the class becomes one space.\<close>

definition isNRT :: "jschar \<Rightarrow> bool" where
  "isNRT c = (c = 0x0A \<or> c = 0x0D \<or> c = 0x09)"

function replaceRuns :: "jsstring \<Rightarrow> jsstring" where
  "replaceRuns [] = []"
| "replaceRuns (c # cs) =
     (if isNRT c then SPACE # replaceRuns (dropWhile isNRT cs) else c # replaceRuns cs)"
  by pat_completeness auto
termination
  by (relation "measure length") (auto simp: length_dropWhile_less)

text \<open>\<open>replace(/\s{2,}/g, ' ')\<close>: every maximal run of two or more whitespace characters
  becomes one space; a single whitespace character stays as it is.\<close>

function replaceSpaces :: "jsstring \<Rightarrow> jsstring" where
  "replaceSpaces [] = []"
| "replaceSpaces [c] = [c]"
| "replaceSpaces (c # d # cs) =
     (if isSpace c \<and> isSpace d then SPACE # replaceSpaces (dropWhile isSpace cs)
      else c # replaceSpaces (d # cs))"
  by pat_completeness auto
termination
  by (relation "measure length") (auto simp: length_dropWhile_less)

definition single :: "jsstring \<Rightarrow> jsstring" where
  "single val = trim (replaceSpaces (replaceRuns val))"

definition normalizeValue :: "jsstring \<Rightarrow> jsstring" where
  "normalizeValue val =
     (if length (single val) > 60 then slice (single val) 0 57 @ [ELLIPSIS] else single val)"

text \<open>
  \<open>/^(\w+)\s*:\s*([\s\S]+)$/.exec(p)\<close>: the result is the pair of the two groups. The
  classes \<open>\w\<close>, \<open>\s\<close> and the colon are disjoint, so the only backtracking is that of
  the second \<open>\s*\<close>, which gives its last character back when nothing else is left for
  the second group.
\<close>

definition matchLabeled :: "jsstring \<Rightarrow> (jsstring \<times> jsstring) option" where
  "matchLabeled p =
     (if takeWhile isWordChar p = [] then None
      else case dropWhile isSpace (dropWhile isWordChar p) of
        [] \<Rightarrow> None
      | c # r \<Rightarrow>
          if c \<noteq> COLON \<or> r = [] then None
          else Some (takeWhile isWordChar p,
                     if dropWhile isSpace r = [] then [last r] else dropWhile isSpace r))"

definition parsePropsFromArgs :: "jsstring \<Rightarrow> jsstring list" where
  "parsePropsFromArgs argsText =
     (if argsText = [] \<or> trim argsText = [] then []
      else map (\<lambda>p. case matchLabeled p of
                       Some (key, v) \<Rightarrow> key @ js '': '' @ normalizeValue v
                     | None \<Rightarrow> normalizeValue p)
             (splitArgs argsText))"


section \<open>View nodes\<close>

datatype kind = KView | KContainer | KForEach | KIf | KBranch | KCustomView

text \<open>
  A node object. \<open>props\<close> is \<open>None\<close> when the object has no \<open>props\<close> field, which is
  how \<open>buildTreeForRoot\<close> builds its wrapper.
\<close>

datatype node = Node (kind: kind) (name: jsstring) (modifiers: "jsstring list")
  (children: "node list") (props: "jsstring list option")

section \<open>Scanning loops of the expression parser\<close>

definition isIdentChar :: "jschar \<Rightarrow> bool" where
  "isIdentChar c = (isWordChar c \<or> c = DOT)"

text \<open>\<open>/^ForEach(\b|$)/.test(name)\<close>: after the \<open>h\<close> the boundary holds at the end of the
  name and before a character that is not a word character.\<close>

definition isForEachName :: "jsstring \<Rightarrow> bool" where
  "isForEachName nm =
     (take 7 nm = js ''ForEach'' \<and> (case drop 7 nm of [] \<Rightarrow> True | c # _ \<Rightarrow> \<not> isWordChar c))"

text \<open>The anchored alternation of \<open>parseViewExpression\<close>, one entry per alternative.\<close>

definition containerNames :: "jsstring list" where
  "containerNames = map js [''VStack'', ''HStack'', ''ZStack'', ''ScrollView'', ''List'',
     ''Group'', ''Section'', ''Form'', ''TabView'', ''NavigationStack'', ''NavigationView'',
     ''LazyVStack'', ''LazyHStack'', ''LazyVGrid'', ''LazyHGrid'', ''Grid'', ''GeometryReader'']"

definition changeDepth :: "jschar \<Rightarrow> jschar \<Rightarrow> jschar \<Rightarrow> int \<Rightarrow> int" where
  "changeDepth opn cls ch d = (if ch = opn then d + 1 else if ch = cls then d - 1 else d)"

text \<open>
  \<open>do { c = s[j]; if (c === '(') d++; else if (c === ')') d--; j++ } while (j < n && d > 0)\<close>:
  the result is the final \<open>j\<close>.
\<close>

function parenScan :: "jsstring \<Rightarrow> int \<Rightarrow> nat \<Rightarrow> nat" where
  "parenScan s d j =
     (if j + 1 < length s \<and>
         (if at s j = Some LPAREN then d + 1 else if at s j = Some RPAREN then d - 1 else d) > 0
      then parenScan s
             (if at s j = Some LPAREN then d + 1 else if at s j = Some RPAREN then d - 1 else d)
             (j + 1)
      else j + 1)"
  by pat_completeness auto
termination
  by (relation "measure (\<lambda>(s, d, j). length s - j)") auto

declare parenScan.simps [simp del]

lemma parenScan_gt: "j < parenScan s d j"
proof (induction s d j rule: parenScan.induct)
  case (1 s d j)
  show ?case
  proof (cases "j + 1 < length s \<and>
      (if at s j = Some LPAREN then d + 1 else if at s j = Some RPAREN then d - 1 else d) > 0")
    case True
    with 1 have "j + 1 < parenScan s
        (if at s j = Some LPAREN then d + 1 else if at s j = Some RPAREN then d - 1 else d) (j + 1)"
      by simp
    with True show ?thesis by (subst parenScan.simps) simp
  next
    case False
    then show ?thesis by (subst parenScan.simps) auto
  qed
qed

text \<open>
  \<open>/content\s*:\s*\{/.exec(after)\<close>: \<open>matchContentAt\<close> is the length of a match that
  starts at the head of the text, \<open>findContent\<close> the index and the length of the
  leftmost match.
\<close>

definition matchContentAt :: "jsstring \<Rightarrow> nat option" where
  "matchContentAt t =
     (if take 7 t = js ''content'' then
        (case dropWhile isSpace (drop 7 t) of
           [] \<Rightarrow> None
         | c # r \<Rightarrow>
             if c = COLON then
               (case dropWhile isSpace r of
                  [] \<Rightarrow> None
                | b # r' \<Rightarrow> if b = LBRACE then Some (length t - length r') else None)
             else None)
      else None)"

fun findContent :: "jsstring \<Rightarrow> nat \<Rightarrow> (nat \<times> nat) option" where
  "findContent [] k = None"
| "findContent (c # cs) k =
     (case matchContentAt (c # cs) of
        Some len \<Rightarrow> Some (k, len)
      | None \<Rightarrow> findContent cs (k + 1))"

text \<open>A character that is absent, or that \<open>/[^A-Za-z0-9_]/\<close> matches.\<close>

definition isBoundary :: "jschar option \<Rightarrow> bool" where
  "isBoundary c = (case c of None \<Rightarrow> True | Some x \<Rightarrow> \<not> isWordChar x)"

definition isWordAt :: "jsstring \<Rightarrow> nat \<Rightarrow> jsstring \<Rightarrow> bool" where
  "isWordAt text index word =
     (if slice text index (index + length word) \<noteq> word then False
      else (index = 0 \<or> isBoundary (atPrev text index)) \<and> isBoundary (at text (index + length word)))"

text \<open>
  The scanning loop of \<open>stripLeadingClosureParams\<close>; \<open>inStr\<close> is never set in the
  source, so its test is left out.
\<close>

function stripLoop :: "jsstring \<Rightarrow> nat \<Rightarrow> int \<Rightarrow> int \<Rightarrow> jsstring" where
  "stripLoop text i depthParen depthBrace =
     (if i < length text then
        (if text ! i = QUOTE then
           stripLoop text (readSwiftString text i + 1) depthParen depthBrace
         else if
           (if text ! i = LPAREN then depthParen + 1
            else if text ! i = RPAREN then depthParen - 1 else depthParen) = 0
           \<and> (if text ! i = LPAREN \<or> text ! i = RPAREN then depthBrace
              else changeDepth LBRACE RBRACE (text ! i) depthBrace) = 0
           \<and> text ! i = 0x69 \<and> at text (i + 1) = Some 0x6E
           \<and> isBoundary (atPrev text i) \<and> isBoundary (at text (i + 2))
         then trimStart (sliceFrom text (i + 2))
         else stripLoop text (i + 1)
           (if text ! i = LPAREN then depthParen + 1
            else if text ! i = RPAREN then depthParen - 1 else depthParen)
           (if text ! i = LPAREN \<or> text ! i = RPAREN then depthBrace
            else changeDepth LBRACE RBRACE (text ! i) depthBrace))
      else text)"
  by pat_completeness auto
termination
  by (relation "measure (\<lambda>(text, i, dp, db). length text - i)")
    (auto simp: readSwiftString_measure)

declare stripLoop.simps [simp del]

definition stripLeadingClosureParams :: "jsstring \<Rightarrow> jsstring" where
  "stripLeadingClosureParams text = stripLoop text (skipWhile isSpace text 0) 0 0"

text \<open>
  The modifier loop of \<open>parseViewExpression\<close> over \<open>tail\<close>. The variable \<open>cur\<close> of the
  source is written and never read, so it is left out.
\<close>

function modifiersLoop :: "jsstring \<Rightarrow> nat \<Rightarrow> int \<Rightarrow> jsstring list \<Rightarrow> jsstring list" where
  "modifiersLoop tail k depth mods =
     (if k < length tail then
        (if tail ! k = QUOTE then modifiersLoop tail (readSwiftString tail k + 1) depth mods
         else if tail ! k = DOT \<and> changeDepth LPAREN RPAREN (tail ! k) depth = 0 then
           (if skipWhile isSpace tail (skipWhile isWordChar tail (k + 1)) < length tail
               \<and> tail ! (skipWhile isSpace tail (skipWhile isWordChar tail (k + 1))) = LPAREN
            then
              modifiersLoop tail
                (parenScan tail 0 (skipWhile isSpace tail (skipWhile isWordChar tail (k + 1))) - 1 + 1)
                (changeDepth LPAREN RPAREN (tail ! k) depth)
                (mods @
                  [if slice tail (skipWhile isSpace tail (skipWhile isWordChar tail (k + 1)) + 1)
                        (parenScan tail 0 (skipWhile isSpace tail (skipWhile isWordChar tail (k + 1))) - 1) \<noteq> []
                   then slice tail (k + 1) (skipWhile isWordChar tail (k + 1)) @ [LPAREN]
                        @ trim (slice tail
                            (skipWhile isSpace tail (skipWhile isWordChar tail (k + 1)) + 1)
                            (parenScan tail 0 (skipWhile isSpace tail (skipWhile isWordChar tail (k + 1))) - 1))
                        @ [RPAREN]
                   else slice tail (k + 1) (skipWhile isWordChar tail (k + 1))])
            else
              modifiersLoop tail
                (skipWhile isSpace tail (skipWhile isWordChar tail (k + 1)) - 1 + 1)
                (changeDepth LPAREN RPAREN (tail ! k) depth)
                (mods @ [slice tail (k + 1) (skipWhile isWordChar tail (k + 1))]))
         else modifiersLoop tail (k + 1) (changeDepth LPAREN RPAREN (tail ! k) depth) mods)
      else mods)"
  by pat_completeness auto
termination
proof (relation "measure (\<lambda>(tail, k, depth, mods). length tail - k)", goal_cases)
  case 1
  show ?case by simp
next
  case (2 tail k depth mods)
  then show ?case by (simp add: readSwiftString_measure)
next
  case (3 tail k depth mods)
  have "k + 1 \<le> skipWhile isSpace tail (skipWhile isWordChar tail (k + 1))"
    using skipWhile_ge[of "k + 1" isWordChar tail]
      skipWhile_ge[of "skipWhile isWordChar tail (k + 1)" isSpace tail] by arith
  moreover have "skipWhile isSpace tail (skipWhile isWordChar tail (k + 1))
      < parenScan tail 0 (skipWhile isSpace tail (skipWhile isWordChar tail (k + 1)))"
    by (rule parenScan_gt)
  ultimately show ?case using 3 by simp arith
next
  case (4 tail k depth mods)
  have "k + 1 \<le> skipWhile isSpace tail (skipWhile isWordChar tail (k + 1))"
    using skipWhile_ge[of "k + 1" isWordChar tail]
      skipWhile_ge[of "skipWhile isWordChar tail (k + 1)" isSpace tail] by arith
  then show ?case using 4 by simp
next
  case (5 tail k depth mods)
  then show ?case by simp
qed

declare modifiersLoop.simps [simp del]

text \<open>
  The inner loop of \<open>parseChildrenBlock\<close> that reads one top-level expression from
  index \<open>i\<close>; the result is the index where the loop stops.
\<close>

function exprEnd :: "jsstring \<Rightarrow> nat \<Rightarrow> int \<Rightarrow> int \<Rightarrow> bool \<Rightarrow> nat" where
  "exprEnd body i depthParen depthBrace inString =
     (if i < length body then
        (if body ! i = QUOTE \<and> atPrev body i \<noteq> Some BACKSLASH
            \<and> at body (i + 1) = Some QUOTE \<and> at body (i + 2) = Some QUOTE
         then exprEnd body (readTripleQuoted body i + 1) depthParen depthBrace inString
         else if (if body ! i = QUOTE \<and> atPrev body i \<noteq> Some BACKSLASH
                  then \<not> inString else inString)
         then exprEnd body (i + 1) depthParen depthBrace True
         else if body ! i = LPAREN then exprEnd body (i + 1) (depthParen + 1) depthBrace False
         else if body ! i = RPAREN then exprEnd body (i + 1) (depthParen - 1) depthBrace False
         else if body ! i = LBRACE then exprEnd body (i + 1) depthParen (depthBrace + 1) False
         else if body ! i = RBRACE then exprEnd body (i + 1) depthParen (depthBrace - 1) False
         else if body ! i = NEWLINE \<and> depthParen = 0 \<and> depthBrace = 0
                 \<and> at body (skipWhile isSpace body (i + 1)) \<noteq> Some DOT
         then i
         else exprEnd body (i + 1) depthParen depthBrace False)
      else i)"
  by pat_completeness auto
termination
proof (relation "measure (\<lambda>(body, i, dp, db, ins). length body - i)", goal_cases)
  case (2 body i dp db ins)
  then have "i + 3 \<le> length body" by (auto simp: at_def split: if_splits)
  then have "i + 3 - 1 \<le> readTripleQuoted_loop body (i + 3)"
    by (intro readTripleQuoted_loop_ge) auto
  with 2 show ?case by (simp add: readTripleQuoted_def)
qed auto

declare exprEnd.simps [simp del]

text \<open>The loop of \<open>parseIfElse\<close> that looks for the top-level opening brace.\<close>

function condEnd :: "jsstring \<Rightarrow> nat \<Rightarrow> int \<Rightarrow> nat" where
  "condEnd text k depthParen =
     (if k < length text then
        (if text ! k = QUOTE then condEnd text (readSwiftString text k + 1) depthParen
         else if text ! k = LBRACE \<and> changeDepth LPAREN RPAREN (text ! k) depthParen = 0 then k
         else condEnd text (k + 1) (changeDepth LPAREN RPAREN (text ! k) depthParen))
      else k)"
  by pat_completeness auto
termination
  by (relation "measure (\<lambda>(text, k, dp). length text - k)")
    (auto simp: readSwiftString_measure)

declare condEnd.simps [simp del]


section \<open>The parser\<close>

text \<open>
  \<open>parseChildrenBlock\<close>, \<open>parseViewExpression\<close> and \<open>parseIfElse\<close> call each other. The
  first argument is fuel: every call and every round of the outer loop of
  \<open>parseChildrenBlock\<close> uses one unit, and \<open>None\<close> means that the fuel ran out.
  \<open>parseChildrenFrom fuel body i\<close> is the outer loop of \<open>parseChildrenBlock\<close> from index
  \<open>i\<close>; its result is the list of the children pushed from there on.
  \<open>parseIfElseFrom\<close> returns the pair \<open>{node, nextIndex}\<close>, with \<open>None\<close> for the node
  \<open>null\<close>.
\<close>

fun parseChildrenFrom :: "nat \<Rightarrow> jsstring \<Rightarrow> nat \<Rightarrow> node list option"
  and parseViewExpressionFuel :: "nat \<Rightarrow> jsstring \<Rightarrow> node option"
  and parseIfElseFrom :: "nat \<Rightarrow> jsstring \<Rightarrow> nat \<Rightarrow> (node option \<times> nat) option"
where
  "parseChildrenFrom 0 body i0 = None"
| "parseChildrenFrom (Suc fuel) body i0 =
     (let i = skipWhile (\<lambda>c. isSpace c \<or> c = COMMA) body i0 in
      if i \<ge> length body then Some []
      else
        case (if isWordAt body i (js ''if'') then parseIfElseFrom fuel body i
              else Some (None, i)) of
          None \<Rightarrow> None
        | Some (Some nd, nextIndex) \<Rightarrow>
            map_option (Cons nd) (parseChildrenFrom fuel body (nextIndex + 1))
        | Some (None, _) \<Rightarrow>
            (let e = exprEnd body i 0 0 False; expr = trim (slice body i e) in
             if expr \<noteq> [] then
               (case parseViewExpressionFuel fuel expr of
                  None \<Rightarrow> None
                | Some nd \<Rightarrow> map_option (Cons nd) (parseChildrenFrom fuel body (e + 1)))
             else parseChildrenFrom fuel body (e + 1)))"
| "parseViewExpressionFuel 0 expr = None"
| "parseViewExpressionFuel (Suc fuel) expr =
     (let s = trim expr;
          n = length s;
          start = skipWhile isSpace s 0;
          i1 = skipWhile isIdentChar s start;
          baseToken = trim (slice s start i1);
          nm = (if baseToken = [] then js ''View'' else baseToken);
          kind0 = (if isForEachName nm then KForEach
                   else if nm \<in> set containerNames then KContainer else KView);
          i2 = skipWhile isSpace s i1
      in
      case (if i2 < n \<and> s ! i2 = LPAREN then
              (let j = parenScan s 0 i2;
                   ps = parsePropsFromArgs (slice s (i2 + 1) (j - 1))
               in
               if kind0 = KForEach then
                 (case findContent (sliceFrom s j) 0 of
                    None \<Rightarrow> Some (ps, [], j)
                  | Some (idx, len) \<Rightarrow>
                      (case readBalanced s (j + idx + len - 1) LBRACE RBRACE of
                         None \<Rightarrow> Some (ps, [], j)
                       | Some (inner, e) \<Rightarrow>
                           (case parseChildrenFrom fuel (stripLeadingClosureParams inner) 0 of
                              None \<Rightarrow> None
                            | Some cs \<Rightarrow> Some (ps, cs, e + 1))))
               else Some (ps, [], j))
            else Some ([], [], i2)) of
        None \<Rightarrow> None
      | Some (ps, children1, i3) \<Rightarrow>
          (let i4 = skipWhile isSpace s i3 in
           case (if i4 < n \<and> s ! i4 = LBRACE then
                   (case readBalanced s i4 LBRACE RBRACE of
                      None \<Rightarrow> Some (kind0, children1, i4)
                    | Some (inner, e) \<Rightarrow>
                        (case parseChildrenFrom fuel
                                (if isForEachName nm then stripLeadingClosureParams inner
                                 else inner) 0 of
                           None \<Rightarrow> None
                         | Some cs \<Rightarrow>
                             Some (if isForEachName nm then KForEach else kind0, cs, e + 1)))
                 else Some (kind0, children1, i4)) of
             None \<Rightarrow> None
           | Some (kind1, children2, baseEnd) \<Rightarrow>
               Some (Node kind1 nm (modifiersLoop (sliceFrom s baseEnd) 0 0 [])
                       children2 (Some ps))))"
| "parseIfElseFrom 0 text i = None"
| "parseIfElseFrom (Suc fuel) text i =
     (let condStart = skipWhile isSpace text (i + 2);
          k = condEnd text condStart 0
      in
      if k \<ge> length text \<or> at text k \<noteq> Some LBRACE then Some (None, i)
      else
        case readBalanced text k LBRACE RBRACE of
          None \<Rightarrow> Some (None, i)
        | Some (thenInner, thenEnd) \<Rightarrow>
            (case parseChildrenFrom fuel thenInner 0 of
               None \<Rightarrow> None
             | Some thenChildren \<Rightarrow>
                 (let nodeName = js ''if '' @ trim (slice text condStart k);
                      thenBranch = Node KBranch (js ''Then'') [] thenChildren (Some []);
                      cursor = skipWhile isSpace text (thenEnd + 1)
                  in
                  if isWordAt text cursor (js ''else'') then
                    (let cursor2 = skipWhile isSpace text (cursor + 4) in
                     if isWordAt text cursor2 (js ''if'') then
                       (case parseIfElseFrom fuel text cursor2 of
                          None \<Rightarrow> None
                        | Some (None, _) \<Rightarrow>
                            Some (Some (Node KIf nodeName [] [thenBranch] (Some [])), cursor2)
                        | Some (Some nested, nextIndex) \<Rightarrow>
                            Some (Some (Node KIf nodeName []
                                    [thenBranch,
                                     Node KBranch (js ''Else'') [] [nested] (Some [])]
                                    (Some [])),
                                  nextIndex + 1))
                     else if at text cursor2 = Some LBRACE then
                       (case readBalanced text cursor2 LBRACE RBRACE of
                          None \<Rightarrow>
                            Some (Some (Node KIf nodeName [] [thenBranch] (Some [])), cursor2)
                        | Some (elseInner, elseEnd) \<Rightarrow>
                            (case parseChildrenFrom fuel elseInner 0 of
                               None \<Rightarrow> None
                             | Some elseChildren \<Rightarrow>
                                 Some (Some (Node KIf nodeName []
                                         [thenBranch,
                                          Node KBranch (js ''Else'') [] elseChildren (Some [])]
                                         (Some [])),
                                       elseEnd + 1)))
                     else Some (Some (Node KIf nodeName [] [thenBranch] (Some [])), cursor2))
                  else Some (Some (Node KIf nodeName [] [thenBranch] (Some [])), cursor))))"


text \<open>
  The three functions of the source, with fuel that is enough for the length of the
  text (\<open>parser_total\<close> below): \<open>parseFuel n\<close> is \<open>n\<^sup>2 + 4 n + 1\<close>.
\<close>

fun parseFuel :: "nat \<Rightarrow> nat" where
  "parseFuel 0 = 1"
| "parseFuel (Suc n) = parseFuel n + 2 * Suc n + 3"

definition parseChildrenBlock :: "jsstring \<Rightarrow> node list option" where
  "parseChildrenBlock body = parseChildrenFrom (parseFuel (length body)) body 0"

definition parseViewExpression :: "jsstring \<Rightarrow> node option" where
  "parseViewExpression expr = parseViewExpressionFuel (parseFuel (length expr)) expr"

definition parseIfElse :: "jsstring \<Rightarrow> nat \<Rightarrow> (node option \<times> nat) option" where
  "parseIfElse text i = parseIfElseFrom (parseFuel (length text)) text i"

section \<open>The parser returns\<close>

text \<open>
  The functions of the parser return for every text: the fuel of \<open>parseChildrenBlock\<close>,
  \<open>parseViewExpression\<close> and \<open>parseIfElse\<close> is enough (\<open>parser_total\<close>). A block that
  \<open>readBalanced\<close> returns is shorter than the text, and every index moves forward.
\<close>

lemma parseFuel_Suc: "\<exists>m. parseFuel n = Suc m"
  by (cases n) simp_all

lemma isWordAt_lt: "isWordAt tx c w \<Longrightarrow> w \<noteq> [] \<Longrightarrow> c < length tx"
  by (cases "c < length tx") (auto simp: isWordAt_def slice_def split: if_splits)

lemma length_trim_le: "length (trim s) \<le> length s"
proof -
  have "length (trim s) \<le> length (dropWhile isSpace s)"
    unfolding trim_def using length_dropWhile_le[of isSpace "rev (dropWhile isSpace s)"] by simp
  with length_dropWhile_le[of isSpace s] show ?thesis by simp
qed

lemma length_slice_le: "length (slice s a b) \<le> length s"
  by (simp add: slice_def)

definition endsWithin :: "jsstring \<Rightarrow> nat \<Rightarrow> nat \<Rightarrow> (jsstring \<times> nat) option \<Rightarrow> bool" where
  "endsWithin tx op i r =
     (case r of None \<Rightarrow> True
      | Some (inner, e) \<Rightarrow> i \<le> e \<and> e < length tx \<and> inner = slice tx (op + 1) e)"

lemma endsWithin_if:
  "(c \<Longrightarrow> endsWithin tx op i a) \<Longrightarrow> (\<not> c \<Longrightarrow> endsWithin tx op i b)
   \<Longrightarrow> endsWithin tx op i (if c then a else b)"
  by simp

lemma endsWithin_mono: "endsWithin tx op j r \<Longrightarrow> i \<le> j \<Longrightarrow> endsWithin tx op i r"
  by (auto simp: endsWithin_def split: option.splits)

lemma readBalanced_loop_ends: "endsWithin tx op i (readBalanced_loop tx op oc cc d i)"
proof (induction tx op oc cc d i rule: readBalanced_loop.induct)
  case (1 tx op oc cc d i)
  show ?case
    apply (subst readBalanced_loop.simps)
    apply (intro endsWithin_if)
    subgoal
      by (rule endsWithin_mono[where j = "readSwiftString tx i + 1"], rule 1(1); assumption?)
        (use readSwiftString_ge[of i tx] in simp)
    subgoal
      by (rule endsWithin_mono[where j = "skipLineComment tx i + 1"], rule 1(2); assumption?)
        (use skipWhile_ge[of i "\<lambda>c. c \<noteq> NEWLINE" tx] in \<open>simp add: skipLineComment_def\<close>)
    subgoal
      by (rule endsWithin_mono[where j = "skipBlockComment tx (i + 2) + 1 + 1"], rule 1(3); assumption?)
        (use skipBlockComment_ge[of "i + 2" tx] in simp)
    subgoal by (rule endsWithin_mono[where j = "i + 1"], rule 1(4); assumption?) simp
    subgoal by (simp add: endsWithin_def)
    subgoal by (rule endsWithin_mono[where j = "i + 1"], rule 1(5); assumption?) simp
    subgoal by (rule endsWithin_mono[where j = "i + 1"], rule 1(6); assumption?) simp
    subgoal by (simp add: endsWithin_def)
    done
qed

lemma length_slice: "b \<le> length s \<Longrightarrow> length (slice s a b) = b - a"
  by (auto simp: slice_def)

lemma readBalanced_Some:
  "readBalanced tx k oc cc = Some (inner, e)
   \<Longrightarrow> k \<le> e \<and> e < length tx \<and> length inner < length tx"
  using readBalanced_loop_ends[of tx k k oc cc 0]
  by (auto simp: readBalanced_def endsWithin_def length_slice split: if_splits)


lemma length_stripLoop: "length (stripLoop tx i dp db) \<le> length tx"
proof (induction tx i dp db rule: stripLoop.induct)
  case (1 tx i dp db)
  show ?case
    apply (subst stripLoop.simps)
    using 1
    apply (auto simp: trimStart_def sliceFrom_def intro: order_trans[OF length_dropWhile_le])
    done
qed

lemma length_strip: "length (stripLeadingClosureParams tx) \<le> length tx"
  by (simp add: stripLeadingClosureParams_def length_stripLoop)

lemma le_ifI: "(c \<Longrightarrow> (i::nat) \<le> a) \<Longrightarrow> (\<not> c \<Longrightarrow> i \<le> b) \<Longrightarrow> i \<le> (if c then a else b)"
  by simp

lemma readTripleQuoted_ge: "at body (i + 2) = Some QUOTE \<Longrightarrow> i + 2 \<le> readTripleQuoted body i"
  using readTripleQuoted_loop_ge[of "i + 3" body]
  by (simp add: readTripleQuoted_def at_def split: if_splits)

lemma exprEnd_ge: "i \<le> exprEnd body i dp db ins"
proof (induction body i dp db ins rule: exprEnd.induct)
  case (1 body i dp db ins)
  show ?case
    apply (subst exprEnd.simps)
    apply (intro le_ifI)
    subgoal
      apply (rule order_trans[where y = "readTripleQuoted body i + 1"])
      subgoal using readTripleQuoted_ge[of body i] by simp
      subgoal by (rule 1(1); assumption)
      done
    subgoal by (rule order_trans[where y = "i + 1"], simp, rule 1(2); assumption)
    subgoal by (rule order_trans[where y = "i + 1"], simp, rule 1(3); assumption)
    subgoal by (rule order_trans[where y = "i + 1"], simp, rule 1(4); assumption)
    subgoal by (rule order_trans[where y = "i + 1"], simp, rule 1(5); assumption)
    subgoal by (rule order_trans[where y = "i + 1"], simp, rule 1(6); assumption)
    subgoal by simp
    subgoal by (rule order_trans[where y = "i + 1"], simp, rule 1(7); assumption)
    subgoal by simp
    done
qed


lemma condEnd_ge: "k \<le> condEnd tx k dp"
proof (induction tx k dp rule: condEnd.induct)
  case (1 tx k dp)
  show ?case
    apply (subst condEnd.simps)
    using 1 readSwiftString_ge[of k tx]
    apply auto
    done
qed

lemma parseFuel_mono: "a \<le> b \<Longrightarrow> parseFuel a \<le> parseFuel b"
proof (induction b)
  case 0
  then show ?case by simp
next
  case (Suc b)
  then show ?case by (cases "a = Suc b") auto
qed

lemma block_lengths:
  assumes "readBalanced (trim expr) k oc cc = Some (inner, e)"
  shows "length inner < length expr" and "length (stripLeadingClosureParams inner) < length expr"
proof -
  from readBalanced_Some[OF assms] length_trim_le[of expr]
  show "length inner < length expr" by simp
  with length_strip[of inner] show "length (stripLeadingClosureParams inner) < length expr"
    by simp
qed

lemma parseViewExpressionFuel_None:
  assumes "parseViewExpressionFuel (Suc f) expr = None"
  shows "\<exists>b. length b < length expr \<and> parseChildrenFrom f b 0 = None"
  using assms
  by (simp add: Let_def split: option.splits if_splits prod.splits)
    (blast dest: block_lengths)+


lemma then_cursor:
  assumes "readBalanced tx (condEnd tx (skipWhile isSpace tx (i + 2)) 0) oc cc = Some (inner, e)"
  shows "i < skipWhile isSpace tx (e + 1)"
    and "i < skipWhile isSpace tx (skipWhile isSpace tx (e + 1) + 4)"
    and "length inner < length tx"
proof -
  from readBalanced_Some[OF assms]
  have "condEnd tx (skipWhile isSpace tx (i + 2)) 0 \<le> e" and l: "length inner < length tx"
    by simp_all
  with condEnd_ge[of "skipWhile isSpace tx (i + 2)" tx 0] skipWhile_ge[of "i + 2" isSpace tx]
  have "i + 2 \<le> e" by simp
  with skipWhile_ge[of "e + 1" isSpace tx]
  show a: "i < skipWhile isSpace tx (e + 1)" by simp
  with skipWhile_ge[of "skipWhile isSpace tx (e + 1) + 4" isSpace tx]
  show "i < skipWhile isSpace tx (skipWhile isSpace tx (e + 1) + 4)" by simp
  from l show "length inner < length tx" .
qed

lemma if_word: "js ''if'' \<noteq> []"
  by (simp add: js_def)


lemma block_len: "readBalanced tx k oc cc = Some (inner, e) \<Longrightarrow> length inner < length tx"
  using readBalanced_Some by blast

lemma then_cursor_Suc:
  assumes "readBalanced tx (condEnd tx (skipWhile isSpace tx (Suc (Suc i))) 0) oc cc = Some (inner, e)"
  shows "i < skipWhile isSpace tx (Suc e)"
    and "i < skipWhile isSpace tx (skipWhile isSpace tx (Suc e) + 4)"
  using then_cursor(1,2)[of tx i oc cc inner e] assms by simp_all

lemma parseIfElseFrom_None:
  assumes "parseIfElseFrom (Suc f) tx i = None"
  shows "(\<exists>b. length b < length tx \<and> parseChildrenFrom f b 0 = None)
       \<or> (\<exists>c. i < c \<and> c < length tx \<and> parseIfElseFrom f tx c = None)"
  using assms
  by (simp add: Let_def split: option.splits if_splits prod.splits)
    (blast intro: block_len then_cursor_Suc(2) isWordAt_lt[OF _ if_word])+



lemma parseIfElseFrom_positions:
  assumes "parseIfElseFrom (Suc f) tx i = Some (Some nd, nxt)"
  shows "\<exists>inner e. readBalanced tx (condEnd tx (skipWhile isSpace tx (Suc (Suc i))) 0) LBRACE RBRACE
            = Some (inner, e)
         \<and> (nxt = skipWhile isSpace tx (Suc e)
            \<or> nxt = skipWhile isSpace tx (skipWhile isSpace tx (Suc e) + 4)
            \<or> (\<exists>nested n. parseIfElseFrom f tx (skipWhile isSpace tx (skipWhile isSpace tx (Suc e) + 4))
                   = Some (Some nested, n) \<and> nxt = n + 1)
            \<or> (\<exists>ei ee. readBalanced tx (skipWhile isSpace tx (skipWhile isSpace tx (Suc e) + 4))
                   LBRACE RBRACE = Some (ei, ee) \<and> nxt = ee + 1))"
  using assms
  by (simp add: Let_def split: option.splits if_splits prod.splits)

lemma parseIfElseFrom_next:
  "parseIfElseFrom f tx i = Some (Some nd, nxt) \<Longrightarrow> i < nxt"
proof (induction f arbitrary: i nd nxt)
  case 0
  then show ?case by simp
next
  case (Suc f)
  from parseIfElseFrom_positions[OF Suc.prems] obtain inner e where
    rb: "readBalanced tx (condEnd tx (skipWhile isSpace tx (Suc (Suc i))) 0) LBRACE RBRACE
            = Some (inner, e)"
    and alt: "nxt = skipWhile isSpace tx (Suc e)
            \<or> nxt = skipWhile isSpace tx (skipWhile isSpace tx (Suc e) + 4)
            \<or> (\<exists>nested n. parseIfElseFrom f tx (skipWhile isSpace tx (skipWhile isSpace tx (Suc e) + 4))
                   = Some (Some nested, n) \<and> nxt = n + 1)
            \<or> (\<exists>ei ee. readBalanced tx (skipWhile isSpace tx (skipWhile isSpace tx (Suc e) + 4))
                   LBRACE RBRACE = Some (ei, ee) \<and> nxt = ee + 1)"
    by blast
  note c = then_cursor_Suc[OF rb]
  from alt show ?case
  proof (elim disjE exE conjE)
    assume "nxt = skipWhile isSpace tx (Suc e)"
    with c(1) show ?thesis by simp
  next
    assume "nxt = skipWhile isSpace tx (skipWhile isSpace tx (Suc e) + 4)"
    with c(2) show ?thesis by simp
  next
    fix nested n
    assume "parseIfElseFrom f tx (skipWhile isSpace tx (skipWhile isSpace tx (Suc e) + 4))
        = Some (Some nested, n)" and "nxt = n + 1"
    with Suc.IH c(2) show ?thesis by fastforce
  next
    fix ei ee
    assume "readBalanced tx (skipWhile isSpace tx (skipWhile isSpace tx (Suc e) + 4))
        LBRACE RBRACE = Some (ei, ee)" and "nxt = ee + 1"
    with readBalanced_Some c(2) show ?thesis by fastforce
  qed
qed

lemma parseChildrenFrom_None:
  assumes "parseChildrenFrom (Suc f) body i0 = None"
  shows "skipWhile (\<lambda>c. isSpace c \<or> c = COMMA) body i0 < length body
     \<and> (parseIfElseFrom f body (skipWhile (\<lambda>c. isSpace c \<or> c = COMMA) body i0) = None
        \<or> (\<exists>nd nxt. parseIfElseFrom f body (skipWhile (\<lambda>c. isSpace c \<or> c = COMMA) body i0)
                 = Some (Some nd, nxt)
               \<and> parseChildrenFrom f body (Suc nxt) = None)
        \<or> parseViewExpressionFuel f
             (trim (slice body (skipWhile (\<lambda>c. isSpace c \<or> c = COMMA) body i0)
                (exprEnd body (skipWhile (\<lambda>c. isSpace c \<or> c = COMMA) body i0) 0 0 False))) = None
        \<or> parseChildrenFrom f body
             (Suc (exprEnd body (skipWhile (\<lambda>c. isSpace c \<or> c = COMMA) body i0) 0 0 False)) = None)"
  using assms
  by (simp add: Let_def split: option.splits if_splits prod.splits)


text \<open>Fuel that is enough for a text of length \<open>n\<close>, for each of the three functions.\<close>

definition needChildren :: "nat \<Rightarrow> nat \<Rightarrow> nat" where
  "needChildren n i = (if n = 0 then 1 else parseFuel (n - 1) + (n - i) + 2)"

definition needExpression :: "nat \<Rightarrow> nat" where
  "needExpression n = (if n = 0 then 1 else parseFuel (n - 1) + 1)"

definition needIfElse :: "nat \<Rightarrow> nat \<Rightarrow> nat" where
  "needIfElse n i = (if n = 0 then 1 else parseFuel (n - 1) + (n - i) + 1)"

lemma needChildren_le: "needChildren n 0 \<le> parseFuel n"
  by (cases n) (simp_all add: needChildren_def)

lemma needExpression_le: "needExpression n \<le> parseFuel n"
  by (cases n) (simp_all add: needExpression_def)

lemma needIfElse_le: "needIfElse n i \<le> parseFuel n"
  by (cases n) (simp_all add: needIfElse_def)

lemma needChildren_inner: "m < n \<Longrightarrow> needChildren m 0 \<le> parseFuel (n - 1)"
proof -
  assume "m < n"
  then have "m \<le> n - 1" by simp
  from parseFuel_mono[OF this] needChildren_le[of m] show ?thesis by simp
qed

lemma needExpression_mono: "m \<le> n \<Longrightarrow> needExpression m \<le> needExpression n"
  using parseFuel_mono[of "m - 1" "n - 1"] parseFuel_Suc[of "n - 1"]
  by (auto simp: needExpression_def)

lemma needIfElse_from_children:
  "i0 \<le> i \<Longrightarrow> i < n \<Longrightarrow> needChildren n i0 \<le> Suc f \<Longrightarrow> needIfElse n i \<le> f"
  unfolding needChildren_def needIfElse_def by (cases "n = 0"; simp; arith)

lemma needChildren_later:
  "i0 \<le> i \<Longrightarrow> i < n \<Longrightarrow> i < j \<Longrightarrow> needChildren n i0 \<le> Suc f \<Longrightarrow> needChildren n j \<le> f"
  unfolding needChildren_def by (cases "n = 0"; simp; arith)

lemma needExpression_from_children:
  assumes "i0 < n" "m \<le> n" "needChildren n i0 \<le> Suc f"
  shows "needExpression m \<le> f"
proof -
  from assms(1,3) have "needExpression n \<le> f"
    unfolding needChildren_def needExpression_def by (cases "n = 0"; simp; arith)
  with needExpression_mono[OF assms(2)] show ?thesis by simp
qed

lemma needChildren_from_expression:
  assumes "m < n" "needExpression n \<le> Suc f"
  shows "needChildren m 0 \<le> f"
proof -
  from assms have "parseFuel (n - 1) \<le> f"
    unfolding needExpression_def by (cases "n = 0") simp_all
  with needChildren_inner[OF assms(1)] show ?thesis by simp
qed

lemma needChildren_from_ifElse:
  assumes "m < n" "needIfElse n i \<le> Suc f"
  shows "needChildren m 0 \<le> f"
proof -
  from assms have "parseFuel (n - 1) \<le> f"
    unfolding needIfElse_def by (cases "n = 0") simp_all
  with needChildren_inner[OF assms(1)] show ?thesis by simp
qed

lemma needIfElse_later:
  "i < c \<Longrightarrow> c < n \<Longrightarrow> needIfElse n i \<le> Suc f \<Longrightarrow> needIfElse n c \<le> f"
  unfolding needIfElse_def by (cases "n = 0"; simp; arith)

lemma parse_enough_fuel:
  "(\<forall>body i. needChildren (length body) i \<le> f \<longrightarrow> parseChildrenFrom f body i \<noteq> None)
   \<and> (\<forall>expr. needExpression (length expr) \<le> f \<longrightarrow> parseViewExpressionFuel f expr \<noteq> None)
   \<and> (\<forall>tx i. needIfElse (length tx) i \<le> f \<longrightarrow> parseIfElseFrom f tx i \<noteq> None)"
proof (induction f)
  case 0
  show ?case by (simp add: needChildren_def needExpression_def needIfElse_def)
next
  case (Suc f)
  then have C: "\<And>body i. needChildren (length body) i \<le> f \<Longrightarrow> parseChildrenFrom f body i \<noteq> None"
    and V: "\<And>expr. needExpression (length expr) \<le> f \<Longrightarrow> parseViewExpressionFuel f expr \<noteq> None"
    and I: "\<And>tx i. needIfElse (length tx) i \<le> f \<Longrightarrow> parseIfElseFrom f tx i \<noteq> None"
    by blast+
  have c: "parseChildrenFrom (Suc f) body i0 \<noteq> None"
    if n: "needChildren (length body) i0 \<le> Suc f" for body i0
  proof
    assume "parseChildrenFrom (Suc f) body i0 = None"
    note inv = parseChildrenFrom_None[OF this]
    let ?i = "skipWhile (\<lambda>c. isSpace c \<or> c = COMMA) body i0"
    let ?e = "exprEnd body ?i 0 0 False"
    from inv have lt: "?i < length body" by simp
    have ge: "i0 \<le> ?i" by (rule skipWhile_ge)
    have later: "needChildren (length body) j \<le> f" if "?i < j" for j
      by (rule needChildren_later[OF ge lt that n])
    have 1: "parseIfElseFrom f body ?i \<noteq> None"
      by (rule I[OF needIfElse_from_children[OF ge lt n]])
    have 2: "parseChildrenFrom f body (Suc nxt) \<noteq> None"
      if "parseIfElseFrom f body ?i = Some (Some nd, nxt)" for nd nxt
      using parseIfElseFrom_next[OF that] by (intro C later) simp
    have "length (trim (slice body ?i ?e)) \<le> length body"
      using length_trim_le[of "slice body ?i ?e"] length_slice_le[of body ?i ?e] by simp
    from needExpression_from_children[OF _ this n] ge lt
    have 3: "parseViewExpressionFuel f (trim (slice body ?i ?e)) \<noteq> None"
      by (intro V) simp
    have 4: "parseChildrenFrom f body (Suc ?e) \<noteq> None"
      using exprEnd_ge[of ?i body 0 0 False] by (intro C later) simp
    from inv 1 2 3 4 show False by blast
  qed
  have v: "parseViewExpressionFuel (Suc f) expr \<noteq> None"
    if n: "needExpression (length expr) \<le> Suc f" for expr
  proof
    assume "parseViewExpressionFuel (Suc f) expr = None"
    from parseViewExpressionFuel_None[OF this] obtain b where
      b: "length b < length expr" "parseChildrenFrom f b 0 = None" by blast
    from C[OF needChildren_from_expression[OF b(1) n]] b(2) show False by simp
  qed
  have i: "parseIfElseFrom (Suc f) tx i \<noteq> None"
    if n: "needIfElse (length tx) i \<le> Suc f" for tx i
  proof
    assume "parseIfElseFrom (Suc f) tx i = None"
    from parseIfElseFrom_None[OF this] show False
    proof (elim disjE exE conjE)
      fix b assume b: "length b < length tx" "parseChildrenFrom f b 0 = None"
      from C[OF needChildren_from_ifElse[OF b(1) n]] b(2) show False by simp
    next
      fix c assume c: "i < c" "c < length tx" "parseIfElseFrom f tx c = None"
      from I[OF needIfElse_later[OF c(1,2) n]] c(3) show False by simp
    qed
  qed
  from c v i show ?case by blast
qed

lemma parser_total:
  "(\<exists>cs. parseChildrenBlock body = Some cs)
   \<and> (\<exists>nd. parseViewExpression expr = Some nd)
   \<and> (\<exists>r. parseIfElse tx i = Some r)"
  using parse_enough_fuel[of "parseFuel (length body)"]
    parse_enough_fuel[of "parseFuel (length expr)"]
    parse_enough_fuel[of "parseFuel (length tx)"]
    needChildren_le[of "length body"] needExpression_le[of "length expr"]
    needIfElse_le[of "length tx" i]
  by (auto simp: parseChildrenBlock_def parseViewExpression_def parseIfElse_def)

section \<open>Custom view resolver\<close>

text \<open>
  The DeclarationMap is a JavaScript \<open>Map\<close>, which keeps its keys in insertion order:
  an association list, read with \<open>map_of\<close>.
\<close>

type_synonym viewMap = "(jsstring \<times> jsstring) list"

definition CONTAINER_TYPES :: "jsstring list" where
  "CONTAINER_TYPES = map js [''VStack'', ''HStack'', ''ZStack'', ''ScrollView'', ''List'',
     ''Group'', ''ForEach'', ''Section'', ''Form'', ''TabView'', ''NavigationStack'',
     ''NavigationView'', ''LazyVStack'', ''LazyHStack'', ''LazyVGrid'', ''LazyHGrid'', ''Grid'',
     ''ZStack'', ''GeometryReader'', ''AnyView'']"

definition recursionMarker :: jsstring where
  "recursionMarker = js ''/* recursion */''"

text \<open>
  The first statement of \<open>resolveCustomViews\<close>, up to the loop over the children: the
  node and the set \<open>seen\<close> as that statement leaves them.
\<close>

definition inlineStep :: "node \<Rightarrow> viewMap \<Rightarrow> jsstring set \<Rightarrow> (node \<times> jsstring set) option" where
  "inlineStep tree viewMap seen =
     (if map_of viewMap (name tree) \<noteq> None \<and> name tree \<notin> set CONTAINER_TYPES then
        (if name tree \<in> seen then
           Some (Node (kind tree) (name tree) (modifiers tree @ [recursionMarker])
                   (children tree) (props tree), seen)
         else
           (case parseChildrenBlock (the (map_of viewMap (name tree))) of
              None \<Rightarrow> None
            | Some parsed \<Rightarrow>
                Some (Node KCustomView (name tree) (modifiers tree) parsed (props tree),
                      insert (name tree) seen - {name tree})))
      else Some (tree, seen))"

text \<open>
  \<open>resolveCustomViews\<close> with fuel for its recursion, which nothing in the source
  bounds: \<open>None\<close> means that the fuel ran out. The result is the tree and the set
  \<open>seen\<close>, which the source shares between all calls.
\<close>

fun resolveCustomViews :: "nat \<Rightarrow> node \<Rightarrow> viewMap \<Rightarrow> jsstring set \<Rightarrow> (node \<times> jsstring set) option"
  and resolveChildren :: "nat \<Rightarrow> node list \<Rightarrow> viewMap \<Rightarrow> jsstring set \<Rightarrow> (node list \<times> jsstring set) option"
where
  "resolveCustomViews 0 tree viewMap seen = None"
| "resolveCustomViews (Suc fuel) tree viewMap seen =
     (case inlineStep tree viewMap seen of
        None \<Rightarrow> None
      | Some (tree1, seen1) \<Rightarrow>
          (case resolveChildren fuel (children tree1) viewMap seen1 of
             None \<Rightarrow> None
           | Some (cs, seen2) \<Rightarrow>
               Some (Node (kind tree1) (name tree1) (modifiers tree1) cs (props tree1), seen2)))"
| "resolveChildren fuel [] viewMap seen = Some ([], seen)"
| "resolveChildren fuel (child # rest) viewMap seen =
     (case resolveCustomViews fuel child viewMap seen of
        None \<Rightarrow> None
      | Some (child', seen1) \<Rightarrow>
          (case resolveChildren fuel rest viewMap seen1 of
             None \<Rightarrow> None
           | Some (rest', seen2) \<Rightarrow> Some (child' # rest', seen2)))"

text \<open>
  \<open>buildTreeForRoot\<close>: the outer \<open>None\<close> means that the fuel ran out, \<open>Some None\<close> is
  the result \<open>null\<close>.
\<close>

definition buildTreeForRoot :: "nat \<Rightarrow> viewMap \<Rightarrow> jsstring \<Rightarrow> node option option" where
  "buildTreeForRoot fuel viewMap rootName =
     (case map_of viewMap rootName of
        None \<Rightarrow> Some None
      | Some body \<Rightarrow>
          if body = [] then Some None
          else
            (case parseChildrenBlock body of
               None \<Rightarrow> None
             | Some kids \<Rightarrow>
                 (if length kids = 1 then
                    map_option (\<lambda>r. Some (fst r)) (resolveCustomViews fuel (kids ! 0) viewMap {})
                  else
                    map_option (\<lambda>r. Some (fst r))
                      (resolveCustomViews fuel (Node KView (js ''Group'') [] kids None)
                         viewMap {}))))"

section \<open>Root candidates\<close>










section \<open>Truncation of prop values\<close>




section \<open>Unresolvable roots\<close>

text \<open>
  C6. For every DeclarationMap and every root name that is not a key of the map, or
  whose body text is empty, \<open>buildTreeForRoot\<close> returns \<open>null\<close>, whatever the fuel: it
  does not fail and does not run the resolver.
\<close>

theorem buildTreeForRoot_absent:
  "map_of viewMap rootName = None \<or> map_of viewMap rootName = Some [] \<Longrightarrow>
   buildTreeForRoot fuel viewMap rootName = Some None"
  by (auto simp: buildTreeForRoot_def)

theorem buildTreeForRoot_absent_witness:
  "map_of [(js ''ContentView'', js ''Text(1)'')] (js ''Missing'') = None
   \<and> buildTreeForRoot 0 [(js ''ContentView'', js ''Text(1)'')] (js ''Missing'') = Some None"
proof -
  have h: "map_of [(js ''ContentView'', js ''Text(1)'')] (js ''Missing'') = None"
    by code_simp
  from h buildTreeForRoot_absent [of "[(js ''ContentView'', js ''Text(1)'')]" "js ''Missing''" 0]
  show ?thesis by blast
qed


section \<open>Argument lists that never balance\<close>











section \<open>Properties of the resolver\<close>

lemma inlineStep_seen: "inlineStep t vm seen = Some (t1, seen1) \<Longrightarrow> seen1 = seen"
  by (auto simp: inlineStep_def split: if_splits option.splits)

lemma inlineStep_name: "inlineStep t vm seen = Some (t1, seen1) \<Longrightarrow> name t1 = name t"
  by (auto simp: inlineStep_def split: if_splits option.splits)

lemma resolveChildren_seen_aux:
  assumes H: "\<And>t seen t' seen'. resolveCustomViews fuel t vm seen = Some (t', seen') \<Longrightarrow> seen' = seen"
  shows "resolveChildren fuel cs vm seen = Some (cs', seen') \<Longrightarrow> seen' = seen"
proof (induction cs arbitrary: cs' seen seen')
  case Nil
  then show ?case by simp
next
  case (Cons c cs)
  from Cons.prems obtain c' s1 r' s2 where
    c: "resolveCustomViews fuel c vm seen = Some (c', s1)"
    and r: "resolveChildren fuel cs vm s1 = Some (r', s2)" and e: "seen' = s2"
    by (auto split: option.splits)
  from H[OF c] Cons.IH[OF r] e show ?case by simp
qed

lemma resolveCustomViews_seen:
  "resolveCustomViews fuel t vm seen = Some (t', seen') \<Longrightarrow> seen' = seen"
proof (induction fuel arbitrary: t seen t' seen')
  case 0
  then show ?case by simp
next
  case (Suc fuel)
  from Suc.prems obtain t1 s1 cs s2 where
    i: "inlineStep t vm seen = Some (t1, s1)"
    and r: "resolveChildren fuel (children t1) vm s1 = Some (cs, s2)" and e: "seen' = s2"
    by (auto split: option.splits)
  have "s2 = s1" by (rule resolveChildren_seen_aux[OF Suc.IH r])
  with inlineStep_seen[OF i] e show ?case by simp
qed


lemma resolveCustomViews_name:
  "resolveCustomViews fuel t vm seen = Some (t', seen') \<Longrightarrow> name t' = name t"
  by (cases fuel) (auto split: option.splits simp: inlineStep_name)

lemma resolveChildren_each:
  "resolveChildren fuel cs vm seen = Some (cs', seen') \<Longrightarrow>
   list_all2 (\<lambda>c c'. resolveCustomViews fuel c vm seen = Some (c', seen)) cs cs'"
proof (induction cs arbitrary: cs' seen')
  case Nil
  then show ?case by simp
next
  case (Cons c cs)
  from Cons.prems obtain c' s1 r' s2 where
    c: "resolveCustomViews fuel c vm seen = Some (c', s1)"
    and r: "resolveChildren fuel cs vm s1 = Some (r', s2)" and e: "cs' = c' # r'"
    by (auto split: option.splits)
  from resolveCustomViews_seen[OF c] have s1: "s1 = seen" .
  from Cons.IH[OF r[unfolded s1]] c s1 e show ?case by simp
qed







text \<open>
  The resolver, going down from the node, comes to a node named \<open>nm\<close>: the node has the
  name itself, or it keeps its children (its name is no declaration or is reserved) and
  the resolver comes to the name from one of them.
\<close>

fun reaches :: "viewMap \<Rightarrow> jsstring \<Rightarrow> node \<Rightarrow> bool" where
  "reaches vm nm (Node k n ms cs ps) =
     (n = nm \<or> ((map_of vm n = None \<or> n \<in> set CONTAINER_TYPES) \<and> (\<exists>c \<in> set cs. reaches vm nm c)))"

lemma resolveChildren_None:
  assumes "c \<in> set cs" and "resolveCustomViews fuel c vm seen = None"
  shows "resolveChildren fuel cs vm seen = None"
  using assms(1)
proof (induction cs)
  case Nil
  then show ?case by simp
next
  case (Cons x xs)
  show ?case
  proof (cases "resolveCustomViews fuel x vm seen")
    case None
    then show ?thesis by simp
  next
    case (Some r)
    obtain x' s1 where r: "r = (x', s1)" by (cases r)
    with Some resolveCustomViews_seen have s1: "s1 = seen" by blast
    from Some assms(2) have "x \<noteq> c" by auto
    with Cons.prems have "c \<in> set xs" by simp
    from Cons.IH[OF this] Some r s1 show ?thesis by simp
  qed
qed

lemma self_reference_resolve:
  assumes "map_of vm nm = Some body" and "nm \<notin> set CONTAINER_TYPES"
    and "parseChildrenBlock body = Some kids" and "k \<in> set kids" and "reaches vm nm k"
  shows "reaches vm nm t \<Longrightarrow> resolveCustomViews fuel t vm {} = None"
proof (induction fuel arbitrary: t)
  case 0
  show ?case by simp
next
  case (Suc fuel)
  obtain kd n ms cs ps where t: "t = Node kd n ms cs ps" by (cases t)
  show ?case
  proof (cases "n = nm")
    case True
    with assms(1,2,3) t have step: "inlineStep t vm {} = Some (Node KCustomView nm ms kids ps, {})"
      by (simp add: inlineStep_def)
    have "resolveChildren fuel kids vm {} = None"
      by (rule resolveChildren_None[OF assms(4) Suc.IH[OF assms(5)]])
    with step show ?thesis by simp
  next
    case False
    with Suc.prems t obtain c where keep: "map_of vm n = None \<or> n \<in> set CONTAINER_TYPES"
      and c: "c \<in> set cs" "reaches vm nm c"
      by auto
    from keep t have step: "inlineStep t vm {} = Some (t, {})"
      by (auto simp: inlineStep_def)
    have "resolveChildren fuel cs vm {} = None"
      by (rule resolveChildren_None[OF c(1) Suc.IH[OF c(2)]])
    with step t show ?thesis by simp
  qed
qed

lemma group_reserved: "js ''Group'' \<in> set CONTAINER_TYPES"
  by code_simp

text \<open>
  C1. Let \<open>nm\<close> be a declaration, not reserved, whose parsed body holds an expression
  from which the resolver comes to the name \<open>nm\<close> again (the body refers to itself). The
  source removes the name from \<open>seen\<close> before it visits the children, so the visit of
  the inner \<open>nm\<close> starts from the empty set again and inlines once more: for every amount
  of fuel \<open>buildTreeForRoot\<close> is still running when the fuel ends. It returns no tree and
  sets no recursion marker.
\<close>

theorem self_reference_never_returns:
  assumes "map_of vm nm = Some body" and "body \<noteq> []" and "nm \<notin> set CONTAINER_TYPES"
    and "parseChildrenBlock body = Some kids" and "k \<in> set kids" and "reaches vm nm k"
  shows "buildTreeForRoot fuel vm nm = None"
proof -
  note div = self_reference_resolve[OF assms(1,3,4,5,6)]
  show ?thesis
  proof (cases "length kids = 1")
    case True
    with assms(5) have "kids ! 0 = k"
      by (cases kids) auto
    with div[OF assms(6), of fuel] assms(1,2,4) True show ?thesis
      by (simp add: buildTreeForRoot_def)
  next
    case False
    have "reaches vm nm (Node KView (js ''Group'') [] kids None)"
      using assms(5,6) group_reserved by auto
    from div[OF this, of fuel] assms(1,2,4) False show ?thesis
      by (simp add: buildTreeForRoot_def)
  qed
qed

theorem self_reference_never_returns_witness:
  "map_of [(js ''A'', js '' VStack { A() } '')] (js ''A'') = Some (js '' VStack { A() } '')
   \<and> js '' VStack { A() } '' \<noteq> []
   \<and> js ''A'' \<notin> set CONTAINER_TYPES
   \<and> parseChildrenBlock (js '' VStack { A() } '') =
       Some [Node KContainer (js ''VStack'') [] [Node KView (js ''A'') [] [] (Some [])] (Some [])]
   \<and> reaches [(js ''A'', js '' VStack { A() } '')] (js ''A'')
       (Node KContainer (js ''VStack'') [] [Node KView (js ''A'') [] [] (Some [])] (Some []))
   \<and> buildTreeForRoot 1000 [(js ''A'', js '' VStack { A() } '')] (js ''A'') = None"
proof -
  have h1: "map_of [(js ''A'', js '' VStack { A() } '')] (js ''A'') = Some (js '' VStack { A() } '')"
    by code_simp
  have h2: "js '' VStack { A() } '' \<noteq> []"
    by code_simp
  have h3: "js ''A'' \<notin> set CONTAINER_TYPES"
    by code_simp
  have h4: "parseChildrenBlock (js '' VStack { A() } '') =
       Some [Node KContainer (js ''VStack'') [] [Node KView (js ''A'') [] [] (Some [])] (Some [])]"
    by code_simp
  have h5: "Node KContainer (js ''VStack'') [] [Node KView (js ''A'') [] [] (Some [])] (Some [])
      \<in> set [Node KContainer (js ''VStack'') [] [Node KView (js ''A'') [] [] (Some [])] (Some [])]"
    by simp
  have h6: "reaches [(js ''A'', js '' VStack { A() } '')] (js ''A'')
       (Node KContainer (js ''VStack'') [] [Node KView (js ''A'') [] [] (Some [])] (Some []))"
    by code_simp
  from h1 h2 h3 h4 h6 self_reference_never_returns[OF h1 h2 h3 h4 h5 h6, of 1000]
  show ?thesis by blast
qed


text \<open>
  C2. The resolver does not test whether a node is a leaf: every node whose name is a
  declaration, is not reserved and is not in \<open>seen\<close> is reclassified as \<open>CustomView\<close>, and
  the parsed body of the declaration, resolved, takes the place of the children it had.
  The node \<open>Card\<close> of the body \<open>Card { Text(1) }\<close> has the child \<open>Text\<close>, which is
  discarded.
\<close>

theorem resolveCustomViews_replaces_children:
  assumes "map_of vm (name t) = Some body" and "name t \<notin> set CONTAINER_TYPES"
    and "name t \<notin> seen" and "parseChildrenBlock body = Some parsed"
  shows "resolveCustomViews (Suc fuel) t vm seen =
           (case resolveChildren fuel parsed vm seen of
              None \<Rightarrow> None
            | Some (cs, seen') \<Rightarrow> Some (Node KCustomView (name t) (modifiers t) cs (props t), seen'))"
  using assms by (auto simp: inlineStep_def split: option.splits)

theorem resolveCustomViews_replaces_children_witness:
  "map_of [(js ''Card'', js '' Image(2) '')]
     (name (Node KView (js ''Card'') [] [Node KView (js ''Text'') [] [] (Some [js ''1''])] (Some [])))
     = Some (js '' Image(2) '')
   \<and> parseChildrenBlock (js '' Image(2) '') = Some [Node KView (js ''Image'') [] [] (Some [js ''2''])]
   \<and> parseChildrenBlock (js '' Card { Text(1) } '') =
       Some [Node KView (js ''Card'') [] [Node KView (js ''Text'') [] [] (Some [js ''1''])] (Some [])]
   \<and> resolveCustomViews (Suc 2)
       (Node KView (js ''Card'') [] [Node KView (js ''Text'') [] [] (Some [js ''1''])] (Some []))
       [(js ''Card'', js '' Image(2) '')] {}
     = Some (Node KCustomView (js ''Card'') []
               [Node KView (js ''Image'') [] [] (Some [js ''2''])] (Some []), {})
   \<and> buildTreeForRoot 5
       [(js ''ContentView'', js '' Card { Text(1) } ''), (js ''Card'', js '' Image(2) '')]
       (js ''ContentView'')
     = Some (Some (Node KCustomView (js ''Card'') []
                     [Node KView (js ''Image'') [] [] (Some [js ''2''])] (Some [])))"
proof -
  let ?t = "Node KView (js ''Card'') [] [Node KView (js ''Text'') [] [] (Some [js ''1''])] (Some [])"
  let ?vm = "[(js ''Card'', js '' Image(2) '')]"
  have h1: "map_of ?vm (name ?t) = Some (js '' Image(2) '')"
    by code_simp
  have h2: "name ?t \<notin> set CONTAINER_TYPES"
    by code_simp
  have h3: "name ?t \<notin> ({} :: jsstring set)"
    by simp
  have h4: "parseChildrenBlock (js '' Image(2) '') = Some [Node KView (js ''Image'') [] [] (Some [js ''2''])]"
    by code_simp
  have h5: "parseChildrenBlock (js '' Card { Text(1) } '') = Some [?t]"
    by code_simp
  have r: "resolveChildren 2 [Node KView (js ''Image'') [] [] (Some [js ''2''])] ?vm {}
      = Some ([Node KView (js ''Image'') [] [] (Some [js ''2''])], {})"
    by code_simp
  have e: "resolveCustomViews (Suc 2) ?t ?vm {}
     = Some (Node KCustomView (js ''Card'') []
               [Node KView (js ''Image'') [] [] (Some [js ''2''])] (Some []), {})"
    using resolveCustomViews_replaces_children[OF h1 h2 h3 h4, of 2] r by simp
  have b: "buildTreeForRoot 5
       [(js ''ContentView'', js '' Card { Text(1) } ''), (js ''Card'', js '' Image(2) '')]
       (js ''ContentView'')
     = Some (Some (Node KCustomView (js ''Card'') []
                     [Node KView (js ''Image'') [] [] (Some [js ''2''])] (Some [])))"
    by code_simp
  from h1 h4 h5 e b show ?thesis by blast
qed


text \<open>
  C10 (as amended). For every chosen root whose body text is not empty and parses to
  zero or to more than one top-level expression, \<open>buildTreeForRoot\<close> returns, when the
  resolution of those expressions returns, a wrapper node named \<open>Group\<close> of kind \<open>View\<close>
  without modifiers and without a \<open>props\<close> field, whose children are the resolved
  expressions in source order, with the names they had. The wrapper itself is never
  inlined. An empty body text gives \<open>null\<close>.
\<close>

theorem buildTreeForRoot_group:
  assumes "map_of vm root = Some body" and "body \<noteq> []"
    and "parseChildrenBlock body = Some kids" and "length kids \<noteq> 1"
  shows "buildTreeForRoot (Suc fuel) vm root =
           (case resolveChildren fuel kids vm {} of
              None \<Rightarrow> None
            | Some (kids', seen') \<Rightarrow> Some (Some (Node KView (js ''Group'') [] kids' None)))
         \<and> (\<forall>kids' seen'. resolveChildren fuel kids vm {} = Some (kids', seen')
              \<longrightarrow> map name kids' = map name kids)"
proof -
  have step: "inlineStep (Node KView (js ''Group'') [] kids None) vm {} =
      Some (Node KView (js ''Group'') [] kids None, {})"
    using group_reserved by (simp add: inlineStep_def)
  have names: "map name kids' = map name kids"
    if "resolveChildren fuel kids vm {} = Some (kids', seen')" for kids' seen'
  proof -
    from resolveChildren_each[OF that]
    have "list_all2 (\<lambda>c c'. name c' = name c) kids kids'"
      by (rule list_all2_mono) (auto dest: resolveCustomViews_name)
    then show ?thesis
      by (induction kids kids' rule: list_all2_induct) auto
  qed
  from assms step names show ?thesis
    by (auto simp: buildTreeForRoot_def split: option.splits)
qed

theorem buildTreeForRoot_group_witness:
  "map_of [(js ''Home'', js '' Text(1)\<newline> Text(2) '')] (js ''Home'') = Some (js '' Text(1)\<newline> Text(2) '')
   \<and> js '' Text(1)\<newline> Text(2) '' \<noteq> []
   \<and> parseChildrenBlock (js '' Text(1)\<newline> Text(2) '') =
       Some [Node KView (js ''Text'') [] [] (Some [js ''1'']), Node KView (js ''Text'') [] [] (Some [js ''2''])]
   \<and> length [Node KView (js ''Text'') [] [] (Some [js ''1'']), Node KView (js ''Text'') [] [] (Some [js ''2''])] \<noteq> 1
   \<and> buildTreeForRoot (Suc 2) [(js ''Home'', js '' Text(1)\<newline> Text(2) '')] (js ''Home'') =
       (case resolveChildren 2
               [Node KView (js ''Text'') [] [] (Some [js ''1'']), Node KView (js ''Text'') [] [] (Some [js ''2''])]
               [(js ''Home'', js '' Text(1)\<newline> Text(2) '')] {} of
          None \<Rightarrow> None
        | Some (kids', seen') \<Rightarrow> Some (Some (Node KView (js ''Group'') [] kids' None)))"
proof -
  have h1: "map_of [(js ''Home'', js '' Text(1)\<newline> Text(2) '')] (js ''Home'')
      = Some (js '' Text(1)\<newline> Text(2) '')"
    by code_simp
  have h2: "js '' Text(1)\<newline> Text(2) '' \<noteq> []"
    by code_simp
  have h3: "parseChildrenBlock (js '' Text(1)\<newline> Text(2) '') =
       Some [Node KView (js ''Text'') [] [] (Some [js ''1'']), Node KView (js ''Text'') [] [] (Some [js ''2''])]"
    by code_simp
  have h4: "length [Node KView (js ''Text'') [] [] (Some [js ''1'']),
      Node KView (js ''Text'') [] [] (Some [js ''2''])] \<noteq> 1"
    by simp
  from h1 h2 h3 h4 buildTreeForRoot_group[OF h1 h2 h3 h4, of 2] show ?thesis
    by blast
qed

text \<open>
  The claim as the specification states it fails for the empty body text, which parses
  to zero expressions: the result is \<open>null\<close>, not a wrapper.
\<close>

theorem buildTreeForRoot_group_counterexample:
  "map_of [(js ''Empty'', [])] (js ''Empty'') = Some ([] :: jsstring)
   \<and> parseChildrenBlock [] = Some []
   \<and> buildTreeForRoot 5 [(js ''Empty'', [])] (js ''Empty'') = Some None"
  by code_simp


section \<open>Conditional branches\<close>

text \<open>
  The shape of the children of an \<open>If\<close> node: one branch \<open>Then\<close>, or a branch \<open>Then\<close>
  followed by a branch \<open>Else\<close>. \<open>ifNodesShaped\<close> says it of every \<open>If\<close> node of a tree.
\<close>

definition isBranchNamed :: "jsstring \<Rightarrow> node \<Rightarrow> bool" where
  "isBranchNamed nm b = (kind b = KBranch \<and> name b = nm)"

definition thenElseShape :: "node list \<Rightarrow> bool" where
  "thenElseShape cs =
     (case cs of
        [t] \<Rightarrow> isBranchNamed (js ''Then'') t
      | [t, e] \<Rightarrow> isBranchNamed (js ''Then'') t \<and> isBranchNamed (js ''Else'') e
      | _ \<Rightarrow> False)"

fun ifNodesShaped :: "node \<Rightarrow> bool" where
  "ifNodesShaped (Node k nm ms cs ps) =
     ((k = KIf \<longrightarrow> thenElseShape cs) \<and> (\<forall>c \<in> set cs. ifNodesShaped c))"

lemma parseViewExpressionFuel_inv:
  assumes "parseViewExpressionFuel (Suc fuel) expr = Some nd"
  shows "kind nd \<noteq> KIf \<and> (children nd = [] \<or> (\<exists>b. parseChildrenFrom fuel b 0 = Some (children nd)))"
  using assms
  by (simp add: Let_def split: option.splits if_splits prod.splits) auto

lemma parseIfElseFrom_inv:
  assumes "parseIfElseFrom (Suc fuel) tx i = Some (Some nd, nxt)"
  shows "\<exists>nm tc rest. nd = Node KIf nm [] (Node KBranch (js ''Then'') [] tc (Some []) # rest) (Some [])
           \<and> (\<exists>b. parseChildrenFrom fuel b 0 = Some tc)
           \<and> (rest = []
               \<or> (\<exists>ec. rest = [Node KBranch (js ''Else'') [] ec (Some [])]
                     \<and> isWordAt tx (skipWhile isSpace tx
                          (snd (the (readBalanced tx (condEnd tx (skipWhile isSpace tx (i + 2)) 0) LBRACE RBRACE)) + 1))
                          (js ''else'')
                     \<and> ((\<exists>b. parseChildrenFrom fuel b 0 = Some ec)
                        \<or> (\<exists>nested n c. parseIfElseFrom fuel tx c = Some (Some nested, n) \<and> ec = [nested]))))"
  using assms
  by (simp add: Let_def split: option.splits if_splits prod.splits) auto

lemma parseChildrenFrom_inv:
  assumes "parseChildrenFrom (Suc fuel) body i = Some cs"
  shows "cs = []
    \<or> (\<exists>j. parseChildrenFrom fuel body j = Some cs)
    \<or> (\<exists>nd rest j. cs = nd # rest \<and> parseChildrenFrom fuel body j = Some rest
          \<and> ((\<exists>e. parseViewExpressionFuel fuel e = Some nd)
             \<or> (\<exists>k n. parseIfElseFrom fuel body k = Some (Some nd, n))))"
  using assms
  by (simp add: Let_def split: option.splits if_splits prod.splits) auto


lemma ifNodesShaped_all:
  "(\<forall>body i cs. parseChildrenFrom fuel body i = Some cs \<longrightarrow> (\<forall>c \<in> set cs. ifNodesShaped c))
   \<and> (\<forall>expr nd. parseViewExpressionFuel fuel expr = Some nd \<longrightarrow> ifNodesShaped nd)
   \<and> (\<forall>tx i nd nxt. parseIfElseFrom fuel tx i = Some (Some nd, nxt) \<longrightarrow> ifNodesShaped nd)"
proof (induction fuel)
  case 0
  show ?case by simp
next
  case (Suc fuel)
  then have C: "\<And>body i cs c. parseChildrenFrom fuel body i = Some cs \<Longrightarrow> c \<in> set cs \<Longrightarrow> ifNodesShaped c"
    and V: "\<And>expr nd. parseViewExpressionFuel fuel expr = Some nd \<Longrightarrow> ifNodesShaped nd"
    and I: "\<And>tx i nd nxt. parseIfElseFrom fuel tx i = Some (Some nd, nxt) \<Longrightarrow> ifNodesShaped nd"
    by blast+
  have c: "\<forall>c \<in> set cs. ifNodesShaped c" if "parseChildrenFrom (Suc fuel) body i = Some cs" for body i cs
    using parseChildrenFrom_inv[OF that] C V I by auto
  have v: "ifNodesShaped nd" if "parseViewExpressionFuel (Suc fuel) expr = Some nd" for expr nd
  proof -
    from parseViewExpressionFuel_inv[OF that]
    have k: "kind nd \<noteq> KIf" and ch: "\<forall>c \<in> set (children nd). ifNodesShaped c"
      using C by auto
    then show ?thesis by (cases nd) simp
  qed
  have i: "ifNodesShaped nd" if "parseIfElseFrom (Suc fuel) tx i = Some (Some nd, nxt)" for tx i nd nxt
    using parseIfElseFrom_inv[OF that] C I
    by (auto simp: thenElseShape_def isBranchNamed_def)
  from c v i show ?case by blast
qed


lemma else_word: "js ''else'' \<noteq> []"
  by (simp add: js_def)

text \<open>
  C5. Every node that \<open>parseIfElse\<close> returns has kind \<open>If\<close> and has as children one
  branch \<open>Then\<close>, first, and after it at most one branch \<open>Else\<close>; when the text has no
  word \<open>else\<close> the branch \<open>Then\<close> is the only child. Every \<open>If\<close> node anywhere in a tree
  that \<open>parseChildrenBlock\<close> or \<open>parseViewExpression\<close> returns has this shape. The text
  \<open>if c { A } else { B }\<close> gives an \<open>If\<close> node with the two branches \<open>Then\<close> and \<open>Else\<close>,
  an \<open>else if\<close> gives a branch \<open>Else\<close> around the nested \<open>If\<close> node, and \<open>if c { A }\<close>
  gives the branch \<open>Then\<close> alone.
\<close>

theorem if_nodes_then_else:
  "(\<forall>nd nxt. parseIfElseFrom fuel tx i = Some (Some nd, nxt) \<longrightarrow>
      kind nd = KIf
      \<and> (\<exists>tc. children nd = [Node KBranch (js ''Then'') [] tc (Some [])]
             \<or> (\<exists>ec. children nd = [Node KBranch (js ''Then'') [] tc (Some []),
                                      Node KBranch (js ''Else'') [] ec (Some [])]))
      \<and> ((\<forall>c < length tx. \<not> isWordAt tx c (js ''else'')) \<longrightarrow> length (children nd) = 1))
   \<and> (\<forall>cs. parseChildrenFrom fuel body j = Some cs \<longrightarrow> (\<forall>c \<in> set cs. ifNodesShaped c))
   \<and> (\<forall>nd. parseViewExpressionFuel fuel expr = Some nd \<longrightarrow> ifNodesShaped nd)
   \<and> parseChildrenBlock (js ''if c { A } else { B }'') =
       Some [Node KIf (js ''if c'') []
               [Node KBranch (js ''Then'') [] [Node KView (js ''A'') [] [] (Some [])] (Some []),
                Node KBranch (js ''Else'') [] [Node KView (js ''B'') [] [] (Some [])] (Some [])]
               (Some [])]
   \<and> parseChildrenBlock (js ''if a { A } else if b { B }'') =
       Some [Node KIf (js ''if a'') []
               [Node KBranch (js ''Then'') [] [Node KView (js ''A'') [] [] (Some [])] (Some []),
                Node KBranch (js ''Else'') []
                  [Node KIf (js ''if b'') []
                     [Node KBranch (js ''Then'') [] [Node KView (js ''B'') [] [] (Some [])] (Some [])]
                     (Some [])]
                  (Some [])]
               (Some [])]
   \<and> parseChildrenBlock (js ''if c { A }'') =
       Some [Node KIf (js ''if c'') []
               [Node KBranch (js ''Then'') [] [Node KView (js ''A'') [] [] (Some [])] (Some [])]
               (Some [])]"
proof -
  have a: "kind nd = KIf
      \<and> (\<exists>tc. children nd = [Node KBranch (js ''Then'') [] tc (Some [])]
             \<or> (\<exists>ec. children nd = [Node KBranch (js ''Then'') [] tc (Some []),
                                      Node KBranch (js ''Else'') [] ec (Some [])]))
      \<and> ((\<forall>c < length tx. \<not> isWordAt tx c (js ''else'')) \<longrightarrow> length (children nd) = 1)"
    if h: "parseIfElseFrom fuel tx i = Some (Some nd, nxt)" for nd nxt
  proof (cases fuel)
    case 0
    with h show ?thesis by simp
  next
    case (Suc f)
    from parseIfElseFrom_inv[OF h[unfolded Suc]] isWordAt_lt[OF _ else_word]
    show ?thesis by fastforce
  qed
  have b: "\<forall>c \<in> set cs. ifNodesShaped c" if "parseChildrenFrom fuel body j = Some cs" for cs
    using ifNodesShaped_all that by blast
  have c: "ifNodesShaped nd" if "parseViewExpressionFuel fuel expr = Some nd" for nd
    using ifNodesShaped_all that by blast
  have e1: "parseChildrenBlock (js ''if c { A } else { B }'') =
       Some [Node KIf (js ''if c'') []
               [Node KBranch (js ''Then'') [] [Node KView (js ''A'') [] [] (Some [])] (Some []),
                Node KBranch (js ''Else'') [] [Node KView (js ''B'') [] [] (Some [])] (Some [])]
               (Some [])]"
    by code_simp
  have e2: "parseChildrenBlock (js ''if a { A } else if b { B }'') =
       Some [Node KIf (js ''if a'') []
               [Node KBranch (js ''Then'') [] [Node KView (js ''A'') [] [] (Some [])] (Some []),
                Node KBranch (js ''Else'') []
                  [Node KIf (js ''if b'') []
                     [Node KBranch (js ''Then'') [] [Node KView (js ''B'') [] [] (Some [])] (Some [])]
                     (Some [])]
                  (Some [])]
               (Some [])]"
    by code_simp
  have e3: "parseChildrenBlock (js ''if c { A }'') =
       Some [Node KIf (js ''if c'') []
               [Node KBranch (js ''Then'') [] [Node KView (js ''A'') [] [] (Some [])] (Some [])]
               (Some [])]"
    by code_simp
  from a b c e1 e2 e3 show ?thesis by blast
qed

theorem if_nodes_then_else_witness:
  "parseIfElseFrom 3 (js ''if c { A }'') 0 =
     Some (Some (Node KIf (js ''if c'') []
                   [Node KBranch (js ''Then'') [] [Node KView (js ''A'') [] [] (Some [])] (Some [])]
                   (Some [])), 10)
   \<and> list_all (\<lambda>c. \<not> isWordAt (js ''if c { A }'') c (js ''else'')) [0..<length (js ''if c { A }'')]
   \<and> length (children (Node KIf (js ''if c'') []
                   [Node KBranch (js ''Then'') [] [Node KView (js ''A'') [] [] (Some [])] (Some [])]
                   (Some []))) = 1
   \<and> parseChildrenFrom 5 (js ''if c { A }'') 0 =
       Some [Node KIf (js ''if c'') []
               [Node KBranch (js ''Then'') [] [Node KView (js ''A'') [] [] (Some [])] (Some [])]
               (Some [])]
   \<and> list_all ifNodesShaped
       [Node KIf (js ''if c'') []
          [Node KBranch (js ''Then'') [] [Node KView (js ''A'') [] [] (Some [])] (Some [])]
          (Some [])]"
proof -
  have h1: "parseIfElseFrom 3 (js ''if c { A }'') 0 =
     Some (Some (Node KIf (js ''if c'') []
                   [Node KBranch (js ''Then'') [] [Node KView (js ''A'') [] [] (Some [])] (Some [])]
                   (Some [])), 10)"
    by code_simp
  have h2: "list_all (\<lambda>c. \<not> isWordAt (js ''if c { A }'') c (js ''else''))
      [0..<length (js ''if c { A }'')]"
    by code_simp
  then have h2': "\<forall>c < length (js ''if c { A }''). \<not> isWordAt (js ''if c { A }'') c (js ''else'')"
    by (simp add: list_all_iff)
  have h3: "parseChildrenFrom 5 (js ''if c { A }'') 0 =
       Some [Node KIf (js ''if c'') []
               [Node KBranch (js ''Then'') [] [Node KView (js ''A'') [] [] (Some [])] (Some [])]
               (Some [])]"
    by code_simp
  from if_nodes_then_else[of 3 "js ''if c { A }''" 0 "js ''if c { A }''" 0 "[]"] h1 h2'
  have l: "length (children (Node KIf (js ''if c'') []
                   [Node KBranch (js ''Then'') [] [Node KView (js ''A'') [] [] (Some [])] (Some [])]
                   (Some []))) = 1"
    by blast
  from if_nodes_then_else[of 5 "js ''if c { A }''" 0 "js ''if c { A }''" 0 "[]"] h3
  have s: "list_all ifNodesShaped
       [Node KIf (js ''if c'') []
          [Node KBranch (js ''Then'') [] [Node KView (js ''A'') [] [] (Some [])] (Some [])]
          (Some [])]"
    unfolding list_all_iff by blast
  from h1 h2 l h3 s show ?thesis by blast
qed


section \<open>Order of the root candidates\<close>


















section \<open>Boundaries of an argument list\<close>

text \<open>
  The boundaries of an argument list in the words of the specification: the string
  literals are the spans that the scanner finds from left to right, the depth at an
  index counts the parentheses outside string literals before it, and a boundary is a
  comma at depth zero outside every string literal.
\<close>

function stringSpans :: "jsstring \<Rightarrow> nat \<Rightarrow> (nat \<times> nat) list" where
  "stringSpans s i =
     (if i < length s then
        (if s ! i = QUOTE then (i, readSwiftString s i) # stringSpans s (readSwiftString s i + 1)
         else stringSpans s (i + 1))
      else [])"
  by pat_completeness auto
termination
  by (relation "measure (\<lambda>(s, i). length s - i)") (auto simp: readSwiftString_measure)

declare stringSpans.simps [simp del]

definition inString :: "jsstring \<Rightarrow> nat \<Rightarrow> bool" where
  "inString s k = list_ex (\<lambda>(a, b). a \<le> k \<and> k \<le> b) (stringSpans s 0)"























end
